theory Spec2Isabelle
  imports Complex_Main
begin

section \<open>Removing EOG artifacts by regression: the script \<open>removing-eog-regression.py\<close>\<close>

text \<open>
  The script loads two runs of one recording (run 3, the calibration run, and run 4, the
  experiment), wraps both in \<open>mne.io.RawArray\<close> objects of 25 channels (22 EEG, 3 EOG),
  derives two bipolar EOG signals from the three raw EOG channels, estimates the regression
  coefficients \<open>b\<close> on the calibration run with \<open>np.linalg.solve\<close> and subtracts the predicted
  EOG contribution from the EEG channels of the experiment.

  Numbers: the arrays of the script hold IEEE doubles. The development below works in exact
  arithmetic, a double being read as the real number it denotes; rounding is not part of the
  model. The library calls (\<open>@\<close>, \<open>.T\<close>, slicing, broadcasting subtraction, slice assignment,
  \<open>np.linalg.solve\<close>, \<open>mne.create_info\<close>, \<open>mne.io.RawArray\<close>) are modelled by what they
  compute and by the exceptions they raise on the shapes they refuse.
\<close>

subsection \<open>Exceptions\<close>

text \<open>
  \<open>ValueError\<close> is what numpy and mne raise on operands whose shapes do not fit;
  \<open>LinAlgError\<close> is \<open>numpy.linalg.LinAlgError\<close>, carrying its message.
\<close>

datatype error = ValueError | LinAlgError string

definition ebind :: "error + 'a \<Rightarrow> ('a \<Rightarrow> error + 'b) \<Rightarrow> error + 'b" where
  "ebind m f = (case m of Inl e \<Rightarrow> Inl e | Inr v \<Rightarrow> f v)"

subsection \<open>Two-dimensional arrays\<close>

text \<open>
  A two-dimensional \<open>ndarray\<close>: its shape and its cells. Only the cells inside the shape are
  the array's content; no operation below reads a cell outside the shape of an operand to
  compute a cell inside the shape of its result.
\<close>

record ndarray =
  nrows :: nat
  ncols :: nat
  cell :: "nat \<Rightarrow> nat \<Rightarrow> real"

text \<open>\<open>np.array(rows)\<close> for a list of rows of equal length.\<close>

definition array :: "real list list \<Rightarrow> ndarray" where
  "array rs =
     \<lparr>nrows = length rs,
      ncols = (case rs of [] \<Rightarrow> 0 | r # _ \<Rightarrow> length r),
      cell = (\<lambda>i j. if i < length rs \<and> j < length (rs ! i) then rs ! i ! j else 0)\<rparr>"

text \<open>\<open>a.T\<close>\<close>

definition transpose_nd :: "ndarray \<Rightarrow> ndarray" where
  "transpose_nd a = \<lparr>nrows = ncols a, ncols = nrows a, cell = (\<lambda>i j. cell a j i)\<rparr>"


text \<open>The inner product of the first \<open>n\<close> entries of two sequences, accumulated in index order.\<close>

primrec dot :: "nat \<Rightarrow> (nat \<Rightarrow> real) \<Rightarrow> (nat \<Rightarrow> real) \<Rightarrow> real" where
  "dot 0 u v = 0"
| "dot (Suc n) u v = dot n u v + u n * v n"

text \<open>\<open>a @ b\<close>: the matrix product, a \<open>ValueError\<close> when the inner dimensions differ.\<close>

definition matmul :: "ndarray \<Rightarrow> ndarray \<Rightarrow> error + ndarray" where
  "matmul a b =
     (if ncols a \<noteq> nrows b then Inl ValueError
      else Inr \<lparr>nrows = nrows a, ncols = ncols b,
                cell = (\<lambda>i j. dot (ncols a) (cell a i) (\<lambda>l. cell b l j))\<rparr>)"

text \<open>
  Broadcasting of one axis: equal lengths stay, a length of 1 stretches to the other length,
  anything else is refused.
\<close>

definition broadcast_dim :: "nat \<Rightarrow> nat \<Rightarrow> nat option" where
  "broadcast_dim m n =
     (if m = n then Some m else if m = 1 then Some n else if n = 1 then Some m else None)"

text \<open>\<open>a - b\<close>: the elementwise difference of the two operands broadcast to a common shape.\<close>

definition subtract :: "ndarray \<Rightarrow> ndarray \<Rightarrow> error + ndarray" where
  "subtract a b =
     (case (broadcast_dim (nrows a) (nrows b), broadcast_dim (ncols a) (ncols b)) of
        (Some r, Some c) \<Rightarrow>
          Inr \<lparr>nrows = r, ncols = c,
               cell = (\<lambda>i j. cell a (if nrows a = 1 then 0 else i) (if ncols a = 1 then 0 else j)
                            - cell b (if nrows b = 1 then 0 else i) (if ncols b = 1 then 0 else j))\<rparr>
      | _ \<Rightarrow> Inl ValueError)"

text \<open>\<open>a[k:, :]\<close>: the rows from index \<open>k\<close> on (none when the array has no more than \<open>k\<close> rows).\<close>

definition rows_from :: "nat \<Rightarrow> ndarray \<Rightarrow> ndarray" where
  "rows_from k a = \<lparr>nrows = nrows a - k, ncols = ncols a, cell = (\<lambda>i j. cell a (i + k) j)\<rparr>"

text \<open>\<open>a[:k, :]\<close>: the first \<open>k\<close> rows (all rows when the array has fewer).\<close>

definition rows_upto :: "nat \<Rightarrow> ndarray \<Rightarrow> ndarray" where
  "rows_upto k a = \<lparr>nrows = min k (nrows a), ncols = ncols a, cell = cell a\<rparr>"

text \<open>
  \<open>a[:k, :] = v\<close> on a copy of \<open>a\<close>: the value is broadcast to the shape of the slice, a
  \<open>ValueError\<close> when it cannot be; the rows outside the slice keep their cells.
\<close>

definition set_rows_upto :: "nat \<Rightarrow> ndarray \<Rightarrow> ndarray \<Rightarrow> error + ndarray" where
  "set_rows_upto k a v =
     (let r = min k (nrows a) in
      if (nrows v = r \<or> nrows v = 1) \<and> (ncols v = ncols a \<or> ncols v = 1)
      then Inr (a\<lparr>cell := (\<lambda>i j. if i < r
                                  then cell v (if nrows v = 1 then 0 else i) (if ncols v = 1 then 0 else j)
                                  else cell a i j)\<rparr>)
      else Inl ValueError)"

subsection \<open>\<open>np.linalg.solve\<close>\<close>

text \<open>
  \<open>np.linalg.solve(a, b)\<close> computes the solution \<open>x\<close> of \<open>a x = b\<close> for a square \<open>a\<close> by
  elimination with partial pivoting (LAPACK \<open>gesv\<close>) and raises \<open>LinAlgError\<close> with the
  message \<open>Singular matrix\<close> when a pivot is exactly zero. The model eliminates column by column
  on the coefficient matrix and the right-hand side together, choosing in each column the
  first row of largest absolute value at or below the diagonal. In exact arithmetic the
  outcome does not depend on the order of elimination: the model returns the one solution
  of every non-singular system and raises on every singular one (lemmas \<open>solve_correct\<close>
  and \<open>nonsingular_unique\<close> below), which is the contract of the library routine.
\<close>

type_synonym cells = "nat \<Rightarrow> nat \<Rightarrow> real"

text \<open>The first index of largest absolute value among \<open>f lo, \<dots>, f (lo + m)\<close>.\<close>

primrec iamax :: "(nat \<Rightarrow> real) \<Rightarrow> nat \<Rightarrow> nat \<Rightarrow> nat" where
  "iamax f lo 0 = lo"
| "iamax f lo (Suc m) =
     (let p = iamax f lo m in if \<bar>f p\<bar> < \<bar>f (lo + Suc m)\<bar> then lo + Suc m else p)"

definition swap_rows :: "nat \<Rightarrow> nat \<Rightarrow> cells \<Rightarrow> cells" where
  "swap_rows k p M = (\<lambda>i. if i = k then M p else if i = p then M k else M i)"

definition scale_row :: "nat \<Rightarrow> real \<Rightarrow> cells \<Rightarrow> cells" where
  "scale_row k c M = (\<lambda>i. if i = k then (\<lambda>j. M k j / c) else M i)"

definition sub_rows :: "nat \<Rightarrow> (nat \<Rightarrow> real) \<Rightarrow> cells \<Rightarrow> cells" where
  "sub_rows k f M = (\<lambda>i. if i = k then M k else (\<lambda>j. M i j - f i * M k j))"

text \<open>
  One column of the elimination, applied to \<open>M\<close> (the coefficient matrix itself or the
  right-hand side): bring the pivot row \<open>p\<close> to position \<open>k\<close>, divide it by the pivot and
  clear column \<open>k\<close> of the coefficient matrix \<open>A\<close> in every other row.
\<close>

definition eliminate :: "nat \<Rightarrow> nat \<Rightarrow> cells \<Rightarrow> cells \<Rightarrow> cells" where
  "eliminate k p A M =
     sub_rows k (\<lambda>i. swap_rows k p A i k) (scale_row k (A p k) (swap_rows k p M))"

text \<open>The columns \<open>n - m, \<dots>, n - 1\<close> of an \<open>n \<times> n\<close> system, in this order.\<close>

primrec gauss_jordan :: "nat \<Rightarrow> nat \<Rightarrow> cells \<Rightarrow> cells \<Rightarrow> error + cells" where
  "gauss_jordan n 0 A B = Inr B"
| "gauss_jordan n (Suc m) A B =
     (let k = n - Suc m; p = iamax (\<lambda>i. A i k) k m in
      if A p k = 0 then Inl (LinAlgError ''Singular matrix'')
      else gauss_jordan n m (eliminate k p A A) (eliminate k p A B))"

definition solve :: "ndarray \<Rightarrow> ndarray \<Rightarrow> error + ndarray" where
  "solve a b =
     (if nrows a \<noteq> ncols a then Inl (LinAlgError ''Last 2 dimensions of the array must be square'')
      else if nrows b \<noteq> nrows a then Inl ValueError
      else case gauss_jordan (nrows a) (nrows a) (cell a) (cell b) of
             Inl e \<Rightarrow> Inl e
           | Inr x \<Rightarrow> Inr \<lparr>nrows = nrows a, ncols = ncols b, cell = x\<rparr>)"

subsection \<open>\<open>mne.create_info\<close> and \<open>mne.io.RawArray\<close>\<close>

datatype ch_type = EEG | EOG

record info =
  nchan :: nat
  sfreq :: real
  ch_types :: "ch_type list"


record raw =
  info :: info
  data :: ndarray


subsection \<open>The script\<close>

text \<open>Line 17: \<open>bip = np.array([[1, -1, 0], [0, -1, 1]])\<close>\<close>

definition bip :: ndarray where
  "bip = array [[1, -1, 0], [0, -1, 1]]"

text \<open>The variables of the script that the properties below speak about.\<close>

record result =
  b :: ndarray
  eeg_corrected :: ndarray
  raw3 :: raw

text \<open>
  Lines 17 to 27, from the two \<open>Raw\<close> objects. \<open>raw[22:, :][0]\<close> and \<open>raw[:22, :][0]\<close> are the
  data of the rows from 22 on and of the first 22 rows; \<open>raw2.copy()\<close> is a fresh object with
  the same info and data, whose first 22 rows line 27 overwrites.
\<close>

definition eog_regression :: "raw \<Rightarrow> raw \<Rightarrow> error + result" where
  "eog_regression raw1 raw2 =
     ebind (matmul bip (rows_from 22 (data raw1))) (\<lambda>raw1_eog.
     ebind (matmul bip (rows_from 22 (data raw2))) (\<lambda>raw2_eog.
     let raw1_eeg = rows_upto 22 (data raw1);
         raw2_eeg = rows_upto 22 (data raw2) in
     ebind (matmul raw1_eog (transpose_nd raw1_eog)) (\<lambda>g.
     ebind (matmul raw1_eog (transpose_nd raw1_eeg)) (\<lambda>c.
     ebind (solve g c) (\<lambda>b.
     ebind (matmul (transpose_nd raw2_eog) b) (\<lambda>predicted.
     ebind (subtract (transpose_nd raw2_eeg) predicted) (\<lambda>d.
     let eeg_corrected = transpose_nd d in
     ebind (set_rows_upto 22 (data raw2) eeg_corrected) (\<lambda>d3.
     Inr \<lparr>b = b, eeg_corrected = eeg_corrected, raw3 = raw2\<lparr>data := d3\<rparr>\<rparr>))))))))"


subsection \<open>Vocabulary of the properties\<close>

text \<open>
  The channel description of line 13, \<open>mne.create_info(25, 250, ["eeg"] * 22 + ["eog"] * 3)\<close>,
  and the \<open>Raw\<close> objects the script builds with it: 25 rows, the first 22 of them EEG and the
  last 3 EOG, and at least one sample.
\<close>

definition script_info :: info where
  "script_info = \<lparr>nchan = 25, sfreq = 250, ch_types = replicate 22 EEG @ replicate 3 EOG\<rparr>"

definition valid_raw :: "raw \<Rightarrow> bool" where
  "valid_raw r = (info r = script_info \<and> nrows (data r) = 25 \<and> 0 < ncols (data r))"


text \<open>
  The quantities of the regression, written as sums over the cells of the data of a \<open>Raw\<close>
  object: the bipolar EOG derivations (bipolar transform times the raw EOG rows 22, 23, 24),
  the cross-product matrix \<open>G\<close> of the bipolar EOG with itself, the cross-covariance \<open>C\<close>
  of the bipolar EOG with the EEG rows, and the EEG minus the contamination that the
  coefficients \<open>x\<close> predict from the bipolar EOG.
\<close>

definition bipolar :: "ndarray \<Rightarrow> cells" where
  "bipolar d = (\<lambda>k s. \<Sum>l<3. cell bip k l * cell d (22 + l) s)"

definition gram :: "ndarray \<Rightarrow> cells" where
  "gram d = (\<lambda>k l. \<Sum>s<ncols d. bipolar d k s * bipolar d l s)"

definition cross :: "ndarray \<Rightarrow> cells" where
  "cross d = (\<lambda>k i. \<Sum>s<ncols d. bipolar d k s * cell d i s)"

definition corrected :: "ndarray \<Rightarrow> cells \<Rightarrow> cells" where
  "corrected d x = (\<lambda>i s. cell d i s - (\<Sum>k<2. bipolar d k s * x k i))"

text \<open>
  Linear systems: \<open>X\<close> solves \<open>A X = B\<close> on \<open>n\<close> rows; the first \<open>k\<close> columns of \<open>A\<close> are
  those of the unit matrix; \<open>A\<close> is non-singular when only the zero vector is mapped to zero.
  For the 2 \<open>\<times>\<close> 2 matrices of the script this is a non-zero determinant
  (lemma \<open>nonsingular_2_det\<close>).
\<close>

definition solves :: "nat \<Rightarrow> cells \<Rightarrow> cells \<Rightarrow> cells \<Rightarrow> bool" where
  "solves n A B X = (\<forall>i<n. \<forall>j. (\<Sum>l<n. A i l * X l j) = B i j)"

definition unit_cols :: "nat \<Rightarrow> nat \<Rightarrow> cells \<Rightarrow> bool" where
  "unit_cols n k A = (\<forall>i<n. \<forall>j<k. A i j = (if i = j then 1 else 0))"

definition nonsingular :: "nat \<Rightarrow> cells \<Rightarrow> bool" where
  "nonsingular n A = (\<forall>x. (\<forall>i<n. (\<Sum>l<n. A i l * x l) = 0) \<longrightarrow> (\<forall>l<n. x l = 0))"

definition det2 :: "cells \<Rightarrow> real" where
  "det2 A = A 0 0 * A 1 1 - A 0 1 * A 1 0"

text \<open>
  What the script leaves in \<open>b\<close>, \<open>eeg_corrected\<close> and \<open>raw3\<close> when \<open>np.linalg.solve\<close> has
  returned the cells \<open>x\<close>.
\<close>

definition is_result :: "raw \<Rightarrow> cells \<Rightarrow> result \<Rightarrow> bool" where
  "is_result raw2 x r =
     (b r = \<lparr>nrows = 2, ncols = 22, cell = x\<rparr> \<and>
      nrows (eeg_corrected r) = 22 \<and> ncols (eeg_corrected r) = ncols (data raw2) \<and>
      (\<forall>i j. j < ncols (data raw2) \<longrightarrow> cell (eeg_corrected r) i j = corrected (data raw2) x i j) \<and>
      info (raw3 r) = info raw2 \<and>
      nrows (data (raw3 r)) = nrows (data raw2) \<and> ncols (data (raw3 r)) = ncols (data raw2) \<and>
      (\<forall>i j. i < 22 \<and> j < ncols (data raw2) \<longrightarrow> cell (data (raw3 r)) i j = corrected (data raw2) x i j) \<and>
      (\<forall>i j. 22 \<le> i \<longrightarrow> cell (data (raw3 r)) i j = cell (data raw2) i j))"


subsection \<open>Example recordings\<close>

text \<open>
  A calibration run whose bipolar EOG is the unit matrix in its first two samples and zero
  afterwards, with a constant first EEG channel, in 2 and in 1000 samples; targets of 1, 3 and
  500 samples; a recording of 3 samples whose EEG is active only where its bipolar EOG is
  zero; a calibration run without any eye movement, in 4 and in 1000 samples.
\<close>

definition cal_cells :: cells where
  "cal_cells = (\<lambda>i s. if i = 22 \<and> s = 0 then 1 else if i = 24 \<and> s = 1 then 1
                       else if i = 0 then 3 else 0)"

definition cal_ex :: raw where
  "cal_ex = \<lparr>info = script_info, data = \<lparr>nrows = 25, ncols = 2, cell = cal_cells\<rparr>\<rparr>"


definition tgt_ex :: raw where
  "tgt_ex = \<lparr>info = script_info,
             data = \<lparr>nrows = 25, ncols = 1,
                     cell = (\<lambda>i s. if i = 22 then 2 else if i = 23 then 1 else if i = 24 then 3
                                   else if i = 0 then 5 else 0)\<rparr>\<rparr>"









subsection \<open>Elimination with partial pivoting solves the system\<close>

text \<open>
  Each column of the elimination replaces the system by an equivalent one and makes one
  more column of the coefficient matrix a unit column; a column without a pivot shows a
  non-zero vector that the matrix maps to zero. Hence \<open>np.linalg.solve\<close> returns exactly on
  the non-singular systems, with the one solution, and raises on the others.
\<close>

lemma dot_sum: "dot n u v = (\<Sum>l<n. u l * v l)"
  by (induction n) simp_all

lemma iamax_range: "lo \<le> iamax f lo m \<and> iamax f lo m \<le> lo + m"
  by (induction m) (auto simp: Let_def)

lemma iamax_max: "lo \<le> i \<Longrightarrow> i \<le> lo + m \<Longrightarrow> \<bar>f i\<bar> \<le> \<bar>f (iamax f lo m)\<bar>"
proof (induction m)
  case 0
  then show ?case by simp
next
  case (Suc m)
  show ?case
  proof (cases "i = lo + Suc m")
    case True
    then show ?thesis by (simp add: Let_def)
  next
    case False
    with Suc.prems have "i \<le> lo + m" by simp
    from Suc.IH[OF Suc.prems(1) this] show ?thesis by (simp add: Let_def)
  qed
qed

lemma sum_lessThan_2: "(\<Sum>l<(2::nat). f l) = f 0 + f 1"
  by (simp add: numeral_2_eq_2)

lemma sum_lessThan_3: "(\<Sum>l<(3::nat). f l) = f 0 + f 1 + f 2"
  by (simp add: numeral_3_eq_3 numeral_2_eq_2)

lemma all_less_2: "(\<forall>i<(2::nat). P i) = (P 0 \<and> P 1)"
  by (auto simp: less_2_cases_iff)

lemma solves_swap:
  assumes "k < n" "p < n"
  shows "solves n (swap_rows k p A) (swap_rows k p B) X = solves n A B X"
proof
  assume h: "solves n (swap_rows k p A) (swap_rows k p B) X"
  show "solves n A B X"
    unfolding solves_def
  proof (intro allI impI)
    fix i j assume "i < n"
    show "(\<Sum>l<n. A i l * X l j) = B i j"
    proof (cases "i = k")
      case True
      from h assms(2) have "(\<Sum>l<n. swap_rows k p A p l * X l j) = swap_rows k p B p j"
        by (simp add: solves_def)
      with True show ?thesis by (simp add: swap_rows_def split: if_splits)
    next
      case False
      show ?thesis
      proof (cases "i = p")
        case True
        from h assms(1) have "(\<Sum>l<n. swap_rows k p A k l * X l j) = swap_rows k p B k j"
          by (simp add: solves_def)
        with True show ?thesis by (simp add: swap_rows_def)
      next
        case np: False
        from h \<open>i < n\<close> have "(\<Sum>l<n. swap_rows k p A i l * X l j) = swap_rows k p B i j"
          by (simp add: solves_def)
        with False np show ?thesis by (simp add: swap_rows_def)
      qed
    qed
  qed
next
  assume h: "solves n A B X"
  with assms show "solves n (swap_rows k p A) (swap_rows k p B) X"
    by (simp add: solves_def swap_rows_def)
qed

lemma solves_scale:
  assumes "c \<noteq> 0"
  shows "solves n (scale_row k c A) (scale_row k c B) X = solves n A B X"
proof -
  have "((\<Sum>l<n. A k l / c * X l j) = B k j / c) = ((\<Sum>l<n. A k l * X l j) = B k j)" for j
  proof -
    have "(\<Sum>l<n. A k l / c * X l j) = (\<Sum>l<n. A k l * X l j) / c"
      by (simp add: sum_divide_distrib)
    with assms show ?thesis by simp
  qed
  then show ?thesis
    by (auto simp: solves_def scale_row_def)
qed

lemma solves_sub:
  assumes "k < n"
  shows "solves n (sub_rows k f A) (sub_rows k f B) X = solves n A B X"
proof -
  have eq: "(\<Sum>l<n. (A i l - f i * A k l) * X l j)
      = (\<Sum>l<n. A i l * X l j) - f i * (\<Sum>l<n. A k l * X l j)" for i j
    by (simp add: left_diff_distrib sum_subtractf sum_distrib_left mult.assoc)
  show ?thesis
  proof
    assume h: "solves n (sub_rows k f A) (sub_rows k f B) X"
    from h assms have rk: "(\<Sum>l<n. A k l * X l j) = B k j" for j
      by (auto simp: solves_def sub_rows_def)
    show "solves n A B X"
      unfolding solves_def
    proof (intro allI impI)
      fix i j assume "i < n"
      show "(\<Sum>l<n. A i l * X l j) = B i j"
      proof (cases "i = k")
        case True
        then show ?thesis by (simp add: rk)
      next
        case False
        with h \<open>i < n\<close> have "(\<Sum>l<n. (A i l - f i * A k l) * X l j) = B i j - f i * B k j"
          by (auto simp: solves_def sub_rows_def)
        then show ?thesis by (simp add: eq rk)
      qed
    qed
  next
    assume h: "solves n A B X"
    then show "solves n (sub_rows k f A) (sub_rows k f B) X"
      using assms by (auto simp: solves_def sub_rows_def eq)
  qed
qed

lemma solves_eliminate:
  assumes "k < n" "p < n" "A p k \<noteq> 0"
  shows "solves n (eliminate k p A A) (eliminate k p A B) X = solves n A B X"
  using assms by (simp add: eliminate_def solves_sub solves_scale solves_swap)

lemma eliminate_zero: "eliminate k p A (\<lambda>i j. 0) = (\<lambda>i j. 0)"
  by (auto simp: eliminate_def sub_rows_def scale_row_def swap_rows_def fun_eq_iff)

lemma unit_cols_0: "unit_cols n 0 A"
  by (simp add: unit_cols_def)

lemma unit_cols_eliminate:
  assumes "unit_cols n k A" "k \<le> p" "p < n" "A p k \<noteq> 0"
  shows "unit_cols n (Suc k) (eliminate k p A A)"
  unfolding unit_cols_def
proof (intro allI impI)
  fix i j assume ij: "i < n" "j < Suc k"
  from assms have kn: "k < n" by simp
  show "eliminate k p A A i j = (if i = j then 1 else 0)"
  proof (cases "j = k")
    case True
    with assms(4) show ?thesis
      by (auto simp: eliminate_def sub_rows_def scale_row_def swap_rows_def)
  next
    case False
    with ij have jk: "j < k" by simp
    from assms(1) jk kn have Ak: "A k j = 0" by (simp add: unit_cols_def)
    from assms(1,2,3) jk have Ap: "A p j = 0" by (simp add: unit_cols_def)
    from assms(1) ij(1) jk have Ai: "A i j = (if i = j then 1 else 0)" by (simp add: unit_cols_def)
    from jk assms(2) have "j \<noteq> k" "j \<noteq> p" by simp_all
    with Ak Ap Ai show ?thesis
      by (auto simp: eliminate_def sub_rows_def scale_row_def swap_rows_def)
  qed
qed

lemma unit_cols_full_solves:
  assumes "unit_cols n n A"
  shows "solves n A B X = (\<forall>i<n. \<forall>j. X i j = B i j)"
proof -
  have "(\<Sum>l<n. A i l * X l j) = X i j" if "i < n" for i j
  proof -
    have "(\<Sum>l<n. A i l * X l j) = (\<Sum>l<n. (if l = i then X l j else 0))"
      using assms that by (intro sum.cong) (auto simp: unit_cols_def)
    also have "\<dots> = X i j"
      using that by simp
    finally show ?thesis .
  qed
  then show ?thesis by (simp add: solves_def)
qed

lemma gauss_jordan_solves:
  assumes "m \<le> n" "unit_cols n (n - m) A" "gauss_jordan n m A B = Inr X"
  shows "solves n A B X"
  using assms
proof (induction m arbitrary: A B)
  case 0
  then show ?case by (simp add: unit_cols_full_solves)
next
  case (Suc m)
  define k where "k = n - Suc m"
  define p where "p = iamax (\<lambda>i. A i k) k m"
  from Suc.prems(1) have kn: "k < n" and km: "k + m < n" and nm: "n - m = Suc k"
    by (simp_all add: k_def)
  have pr: "k \<le> p" "p < n"
    using iamax_range[of k "\<lambda>i. A i k" m] km by (simp_all add: p_def)
  from Suc.prems(3) have piv: "A p k \<noteq> 0"
    and rec: "gauss_jordan n m (eliminate k p A A) (eliminate k p A B) = Inr X"
    by (simp_all add: Let_def k_def[symmetric] p_def[symmetric] split: if_splits)
  have "unit_cols n k A"
    using Suc.prems(2) by (simp add: k_def)
  then have "unit_cols n (n - m) (eliminate k p A A)"
    using unit_cols_eliminate[of n k A p] pr piv by (simp add: nm)
  moreover have "m \<le> n" using Suc.prems(1) by simp
  ultimately have "solves n (eliminate k p A A) (eliminate k p A B) X"
    using Suc.IH[of "eliminate k p A A" "eliminate k p A B"] rec by simp
  then show ?case
    using solves_eliminate[of k n p A B X] kn pr(2) piv by simp
qed

lemma nonsingular_solves0:
  "nonsingular n A = (\<forall>x. solves n A (\<lambda>i j. 0) (\<lambda>l j. x l) \<longrightarrow> (\<forall>l<n. x l = 0))"
  by (simp add: nonsingular_def solves_def)

lemma nonsingular_eliminate:
  assumes "k < n" "p < n" "A p k \<noteq> 0"
  shows "nonsingular n (eliminate k p A A) = nonsingular n A"
  using solves_eliminate[of k n p A "\<lambda>i j. 0"] assms
  by (simp add: nonsingular_solves0 eliminate_zero)

lemma unit_cols_full_nonsingular:
  assumes "unit_cols n n A"
  shows "nonsingular n A"
  using unit_cols_full_solves[of n A "\<lambda>i j. 0"] assms
  by (simp add: nonsingular_solves0)

lemma zero_column_singular:
  assumes "unit_cols n k A" "k < n" "\<forall>i. k \<le> i \<and> i < n \<longrightarrow> A i k = 0"
  shows "\<not> nonsingular n A"
proof -
  define x where "x l = (if l < k then - A l k else if l = k then 1 else 0)" for l
  have "(\<Sum>l<n. A i l * x l) = 0" if "i < n" for i
  proof -
    have split: "{..<n} = {..<Suc k} \<union> {Suc k..<n}" and dj: "{..<Suc k} \<inter> {Suc k..<n} = {}"
      using assms(2) by auto
    have "(\<Sum>l<n. A i l * x l) = (\<Sum>l<Suc k. A i l * x l) + (\<Sum>l=Suc k..<n. A i l * x l)"
      unfolding split using dj by (simp add: sum.union_disjoint)
    also have "(\<Sum>l=Suc k..<n. A i l * x l) = 0"
      by (intro sum.neutral) (simp add: x_def)
    also have "(\<Sum>l<Suc k. A i l * x l) = (\<Sum>l<k. A i l * x l) + A i k * x k"
      by simp
    also have "(\<Sum>l<k. A i l * x l) = (\<Sum>l<k. if l = i then - A i k else 0)"
      using assms(1) that by (intro sum.cong) (auto simp: unit_cols_def x_def)
    also have "\<dots> = (if i < k then - A i k else 0)"
      by simp
    finally show ?thesis
      using assms(3) that by (simp add: x_def)
  qed
  then have ker: "\<forall>i<n. (\<Sum>l<n. A i l * x l) = 0" by simp
  have xk: "x k \<noteq> 0" by (simp add: x_def)
  show ?thesis
  proof
    assume "nonsingular n A"
    then have "(\<forall>i<n. (\<Sum>l<n. A i l * x l) = 0) \<longrightarrow> (\<forall>l<n. x l = 0)"
      unfolding nonsingular_def by (rule allE)
    with ker assms(2) have "x k = 0" by simp
    with xk show False by simp
  qed
qed

lemma gauss_jordan_outcome:
  assumes "m \<le> n" "unit_cols n (n - m) A"
  shows "(nonsingular n A \<longrightarrow> (\<exists>X. gauss_jordan n m A B = Inr X)) \<and>
         (\<not> nonsingular n A \<longrightarrow> gauss_jordan n m A B = Inl (LinAlgError ''Singular matrix''))"
  using assms
proof (induction m arbitrary: A B)
  case 0
  then show ?case by (simp add: unit_cols_full_nonsingular)
next
  case (Suc m)
  define k where "k = n - Suc m"
  define p where "p = iamax (\<lambda>i. A i k) k m"
  from Suc.prems(1) have kn: "k < n" and km: "Suc (k + m) = n" and nm: "n - m = Suc k"
    by (simp_all add: k_def)
  have pr: "k \<le> p" "p < n"
    using iamax_range[of k "\<lambda>i. A i k" m] km by (simp_all add: p_def)
  have uk: "unit_cols n k A"
    using Suc.prems(2) by (simp add: k_def)
  show ?case
  proof (cases "A p k = 0")
    case True
    have "A i k = 0" if "k \<le> i \<and> i < n" for i
    proof -
      from that km have "\<bar>A i k\<bar> \<le> \<bar>A p k\<bar>"
        unfolding p_def by (intro iamax_max[of k i m "\<lambda>i. A i k"]) simp_all
      with True show ?thesis by simp
    qed
    then have "\<not> nonsingular n A"
      using zero_column_singular[of n k A] uk kn by simp
    with True show ?thesis
      by (simp add: Let_def k_def[symmetric] p_def[symmetric])
  next
    case False
    have uc: "unit_cols n (n - m) (eliminate k p A A)"
      using unit_cols_eliminate[of n k A p] uk pr False by (simp add: nm)
    have "gauss_jordan n (Suc m) A B = gauss_jordan n m (eliminate k p A A) (eliminate k p A B)"
      using False by (simp add: Let_def k_def[symmetric] p_def[symmetric])
    moreover have "m \<le> n" using Suc.prems(1) by simp
    ultimately show ?thesis
      using Suc.IH[of "eliminate k p A A" "eliminate k p A B"] uc
        nonsingular_eliminate[of k n p A] kn pr(2) False
      by simp
  qed
qed

lemma nonsingularD:
  assumes "nonsingular n A" "\<forall>i<n. (\<Sum>l<n. A i l * x l) = 0" "l < n"
  shows "x l = 0"
proof -
  from assms(1) have "(\<forall>i<n. (\<Sum>l<n. A i l * x l) = 0) \<longrightarrow> (\<forall>l<n. x l = 0)"
    unfolding nonsingular_def by (rule allE)
  with assms(2,3) show ?thesis by simp
qed

lemma nonsingular_unique:
  assumes "nonsingular n A" "solves n A B X" "solves n A B Y" "i < n"
  shows "X i j = Y i j"
proof -
  have "(\<Sum>l<n. A r l * (X l j - Y l j)) = 0" if "r < n" for r
    using assms(2,3) that by (simp add: solves_def right_diff_distrib sum_subtractf)
  then have "\<forall>r<n. (\<Sum>l<n. A r l * (X l j - Y l j)) = 0" by simp
  moreover from assms(1)
  have "(\<forall>r<n. (\<Sum>l<n. A r l * (X l j - Y l j)) = 0) \<longrightarrow> (\<forall>l<n. X l j - Y l j = 0)"
    unfolding nonsingular_def by (rule allE)
  ultimately have "\<forall>l<n. X l j - Y l j = 0" by simp
  with assms(4) show ?thesis by simp
qed

lemma solution_column_unique:
  assumes "nonsingular n A" "solves n A B X" "solves n A B' Y"
    and "\<forall>r<n. B r j = B' r j" "i < n"
  shows "X i j = Y i j"
proof -
  have "(\<Sum>l<n. A r l * (X l j - Y l j)) = 0" if "r < n" for r
    using assms(2,3,4) that by (simp add: solves_def right_diff_distrib sum_subtractf)
  then have "\<forall>r<n. (\<Sum>l<n. A r l * (X l j - Y l j)) = 0" by simp
  from nonsingularD[OF assms(1) this assms(5)] show ?thesis by simp
qed

lemma solve_correct:
  assumes "nrows a = ncols a" "nrows c = nrows a"
  shows "(nonsingular (nrows a) (cell a) \<longrightarrow>
            (\<exists>x. solve a c = Inr x \<and> nrows x = nrows a \<and> ncols x = ncols c \<and>
                 solves (nrows a) (cell a) (cell c) (cell x))) \<and>
         (\<not> nonsingular (nrows a) (cell a) \<longrightarrow>
            solve a c = Inl (LinAlgError ''Singular matrix''))"
proof (cases "nonsingular (nrows a) (cell a)")
  case True
  with gauss_jordan_outcome[of "nrows a" "nrows a" "cell a" "cell c"] obtain x
    where x: "gauss_jordan (nrows a) (nrows a) (cell a) (cell c) = Inr x"
    by (auto simp: unit_cols_0)
  from gauss_jordan_solves[of "nrows a" "nrows a" "cell a" "cell c" x] x
  have "solves (nrows a) (cell a) (cell c) x" by (simp add: unit_cols_0)
  with True x assms show ?thesis by (simp add: solve_def)
next
  case False
  with gauss_jordan_outcome[of "nrows a" "nrows a" "cell a" "cell c"] assms show ?thesis
    by (simp add: unit_cols_0 solve_def)
qed

lemma nonsingular_2_det: "nonsingular 2 A = (det2 A \<noteq> 0)"
proof
  assume ns: "nonsingular 2 A"
  show "det2 A \<noteq> 0"
  proof
    assume d: "det2 A = 0"
    then have d': "A 0 0 * A 1 1 = A 0 1 * A 1 0" by (simp add: det2_def)
    define u where "u l = (if l = 0 then A 0 1 else - A 0 0)" for l :: nat
    define v where "v l = (if l = 0 then A 1 1 else - A 1 0)" for l :: nat
    define w where "w l = (if l = 0 then 1 else 0 :: real)" for l :: nat
    have "\<forall>i<2. (\<Sum>l<2. A i l * u l) = 0"
      using d' by (simp add: all_less_2 sum_lessThan_2 u_def mult.commute)
    from nonsingularD[OF ns this] have z1: "A 0 1 = 0" "A 0 0 = 0"
      using all_less_2[of "\<lambda>l. u l = 0"] by (simp_all add: u_def)
    have "\<forall>i<2. (\<Sum>l<2. A i l * v l) = 0"
      using d' by (simp add: all_less_2 sum_lessThan_2 v_def mult.commute)
    from nonsingularD[OF ns this] have z2: "A 1 1 = 0" "A 1 0 = 0"
      using all_less_2[of "\<lambda>l. v l = 0"] by (simp_all add: v_def)
    have "\<forall>i<2. (\<Sum>l<2. A i l * w l) = 0"
      using z1 z2 by (simp add: all_less_2 sum_lessThan_2 w_def)
    from nonsingularD[OF ns this, of 0] show False
      by (simp add: w_def)
  qed
next
  assume d: "det2 A \<noteq> 0"
  show "nonsingular 2 A"
    unfolding nonsingular_def
  proof (intro allI impI)
    fix x l assume h: "\<forall>i<2. (\<Sum>l<2. A i l * x l) = 0" and l: "l < (2::nat)"
    from h have e0: "A 0 0 * x 0 + A 0 1 * x 1 = 0" and e1: "A 1 0 * x 0 + A 1 1 * x 1 = 0"
      by (simp_all add: all_less_2 sum_lessThan_2)
    have "det2 A * x 0 = A 1 1 * (A 0 0 * x 0 + A 0 1 * x 1) - A 0 1 * (A 1 0 * x 0 + A 1 1 * x 1)"
      by (simp add: det2_def algebra_simps)
    with e0 e1 d have x0: "x 0 = 0" by simp
    have "det2 A * x 1 = A 0 0 * (A 1 0 * x 0 + A 1 1 * x 1) - A 1 0 * (A 0 0 * x 0 + A 0 1 * x 1)"
      by (simp add: det2_def algebra_simps)
    with e0 e1 d have x1: "x 1 = 0" by simp
    from l x0 x1 show "x l = 0" by (auto simp: less_2_cases_iff)
  qed
qed


lemma gauss_jordan_2_ok:
  assumes "det2 G \<noteq> 0"
  shows "\<exists>x. gauss_jordan 2 2 G C = Inr x \<and> solves 2 G C x"
proof -
  from assms have "nonsingular 2 G" by (simp add: nonsingular_2_det)
  with gauss_jordan_outcome[of 2 2 G C] obtain x where x: "gauss_jordan 2 2 G C = Inr x"
    by (auto simp: unit_cols_0)
  with gauss_jordan_solves[of 2 2 G C x] show ?thesis
    by (simp add: unit_cols_0)
qed

lemma gauss_jordan_2_singular:
  assumes "det2 G = 0"
  shows "gauss_jordan 2 2 G C = Inl (LinAlgError ''Singular matrix'')"
  using gauss_jordan_outcome[of 2 2 G C] assms
  by (simp add: unit_cols_0 nonsingular_2_det)

lemma solve_example:
  "case solve (array [[2, 1], [1, 3]]) (array [[5], [10]]) of
     Inl e \<Rightarrow> False
   | Inr x \<Rightarrow> nrows x = 2 \<and> ncols x = 1 \<and> cell x 0 0 = 1 \<and> cell x 1 0 = 3"
  by (simp add: solve_def array_def numeral_2_eq_2 Let_def eliminate_def sub_rows_def
      scale_row_def swap_rows_def)

lemma solve_example_pivot:
  "case solve (array [[0, 2], [4, 2]]) (array [[2, 4], [6, 8]]) of
     Inl e \<Rightarrow> False
   | Inr x \<Rightarrow> cell x 0 0 = 1 \<and> cell x 1 0 = 1 \<and> cell x 0 1 = 1 \<and> cell x 1 1 = 2"
  by (simp add: solve_def array_def numeral_2_eq_2 Let_def eliminate_def sub_rows_def
      scale_row_def swap_rows_def)

lemma solve_example_3:
  "case solve (array [[2, 0, 0], [0, 0, 1], [0, 4, 0]]) (array [[2], [3], [4]]) of
     Inl e \<Rightarrow> False
   | Inr x \<Rightarrow> cell x 0 0 = 1 \<and> cell x 1 0 = 1 \<and> cell x 2 0 = 3"
  by (simp add: solve_def array_def numeral_3_eq_3 numeral_2_eq_2 Let_def eliminate_def sub_rows_def
      scale_row_def swap_rows_def)

lemma solve_example_singular:
  "solve (array [[1, 2], [2, 4]]) (array [[1], [1]]) = Inl (LinAlgError ''Singular matrix'')"
  by (simp add: solve_def array_def numeral_2_eq_2 Let_def eliminate_def sub_rows_def
      scale_row_def swap_rows_def)

subsection \<open>The script, line by line\<close>

text \<open>
  On \<open>Raw\<close> objects of 25 rows every product, the subtraction and the slice assignment find
  operands of fitting shapes; what remains is the outcome of \<open>np.linalg.solve\<close> on \<open>gram\<close>
  and \<open>cross\<close> of the calibration run.
\<close>

lemma ebind_simps: "ebind (Inr v) f = f v" "ebind (Inl e) f = Inl e"
  by (simp_all add: ebind_def)

lemma bip_shape: "nrows bip = 2" "ncols bip = 3"
  by (simp_all add: bip_def array_def)

lemma bip_cells:
  "cell bip 0 0 = 1" "cell bip 0 (Suc 0) = -1" "cell bip 0 2 = 0"
  "cell bip (Suc 0) 0 = 0" "cell bip (Suc 0) (Suc 0) = -1" "cell bip (Suc 0) 2 = 1"
  by (simp_all add: bip_def array_def)




lemma bipolar_rows:
  "bipolar d 0 s = cell d 22 s - cell d 23 s"
  "bipolar d (Suc 0) s = cell d 24 s - cell d 23 s"
  by (simp_all add: bipolar_def sum_lessThan_3 bip_cells)

lemma matmul_bip:
  assumes "nrows d = 25"
  shows "matmul bip (rows_from 22 d) = Inr \<lparr>nrows = 2, ncols = ncols d, cell = bipolar d\<rparr>"
  using assms
  by (simp add: matmul_def rows_from_def bip_shape bipolar_def dot_sum add.commute)

lemma matmul_gram:
  "matmul \<lparr>nrows = 2, ncols = ncols d, cell = bipolar d\<rparr>
          (transpose_nd \<lparr>nrows = 2, ncols = ncols d, cell = bipolar d\<rparr>)
   = Inr \<lparr>nrows = 2, ncols = 2, cell = gram d\<rparr>"
  by (simp add: matmul_def transpose_nd_def gram_def dot_sum)

lemma matmul_cross:
  assumes "nrows d = 25"
  shows "matmul \<lparr>nrows = 2, ncols = ncols d, cell = bipolar d\<rparr> (transpose_nd (rows_upto 22 d))
   = Inr \<lparr>nrows = 2, ncols = 22, cell = cross d\<rparr>"
  using assms by (simp add: matmul_def transpose_nd_def rows_upto_def cross_def dot_sum)

lemma solve_2:
  "solve \<lparr>nrows = 2, ncols = 2, cell = G\<rparr> \<lparr>nrows = 2, ncols = m, cell = C\<rparr>
   = (case gauss_jordan 2 2 G C of Inl e \<Rightarrow> Inl e
      | Inr x \<Rightarrow> Inr \<lparr>nrows = 2, ncols = m, cell = x\<rparr>)"
  by (simp add: solve_def split: sum.splits)

lemma eog_regression_unfold:
  assumes "nrows (data raw1) = 25" "nrows (data raw2) = 25"
  shows "eog_regression raw1 raw2 =
    (case gauss_jordan 2 2 (gram (data raw1)) (cross (data raw1)) of
       Inl e \<Rightarrow> Inl e
     | Inr x \<Rightarrow>
        (let n2 = ncols (data raw2);
             ec = (\<lambda>i j. corrected (data raw2) x i (if n2 = 1 then 0 else j)) in
         Inr \<lparr>b = \<lparr>nrows = 2, ncols = 22, cell = x\<rparr>,
              eeg_corrected = \<lparr>nrows = 22, ncols = n2, cell = ec\<rparr>,
              raw3 = raw2\<lparr>data := (data raw2)\<lparr>cell :=
                (\<lambda>i j. if i < 22 then ec i (if n2 = 1 then 0 else j) else cell (data raw2) i j)\<rparr>\<rparr>\<rparr>))"
proof -
  let ?d1 = "data raw1" and ?d2 = "data raw2"
  have pred: "matmul (transpose_nd \<lparr>nrows = 2, ncols = ncols ?d2, cell = bipolar ?d2\<rparr>)
                 \<lparr>nrows = 2, ncols = 22, cell = x\<rparr>
        = Inr \<lparr>nrows = ncols ?d2, ncols = 22,
               cell = (\<lambda>s i. \<Sum>k<2. bipolar ?d2 k s * x k i)\<rparr>" for x
    by (simp add: matmul_def transpose_nd_def dot_sum)
  have sub: "subtract (transpose_nd (rows_upto 22 ?d2))
                 \<lparr>nrows = ncols ?d2, ncols = 22, cell = (\<lambda>s i. \<Sum>k<2. bipolar ?d2 k s * x k i)\<rparr>
        = Inr \<lparr>nrows = ncols ?d2, ncols = 22,
               cell = (\<lambda>s i. corrected ?d2 x i (if ncols ?d2 = 1 then 0 else s))\<rparr>" for x
    using assms(2)
    by (simp add: subtract_def broadcast_dim_def transpose_nd_def rows_upto_def corrected_def)
  have tr: "transpose_nd \<lparr>nrows = ncols ?d2, ncols = 22,
               cell = (\<lambda>s i. corrected ?d2 x i (if ncols ?d2 = 1 then 0 else s))\<rparr>
        = \<lparr>nrows = 22, ncols = ncols ?d2,
            cell = (\<lambda>i j. corrected ?d2 x i (if ncols ?d2 = 1 then 0 else j))\<rparr>" for x
    by (simp add: transpose_nd_def)
  have set: "set_rows_upto 22 ?d2 \<lparr>nrows = 22, ncols = ncols ?d2, cell = ec\<rparr>
        = Inr (?d2\<lparr>cell := (\<lambda>i j. if i < 22 then ec i (if ncols ?d2 = 1 then 0 else j)
                                     else cell ?d2 i j)\<rparr>)" for ec
    using assms(2) by (simp add: set_rows_upto_def cong: if_cong)
  show ?thesis
    unfolding eog_regression_def
    apply (simp only: matmul_bip[OF assms(1)] matmul_bip[OF assms(2)] ebind_simps Let_def
        matmul_gram matmul_cross[OF assms(1)] solve_2)
    apply (cases "gauss_jordan 2 2 (gram ?d1) (cross ?d1)")
     apply (simp only: sum.case ebind_simps)
    apply (simp only: sum.case ebind_simps pred sub tr set)
    done
qed

lemma eog_regression_Inr:
  assumes "valid_raw raw1" "valid_raw raw2"
    and "gauss_jordan 2 2 (gram (data raw1)) (cross (data raw1)) = Inr x"
  shows "\<exists>r. eog_regression raw1 raw2 = Inr r \<and> is_result raw2 x r"
proof -
  from assms(1,2) have v: "nrows (data raw1) = 25" "nrows (data raw2) = 25"
    by (simp_all add: valid_raw_def)
  have idx: "(if ncols (data raw2) = 1 then 0 else j) = j" if "j < ncols (data raw2)" for j
    using that by simp
  show ?thesis
    unfolding eog_regression_unfold[OF v] assms(3)
    by (simp add: is_result_def Let_def idx del: One_nat_def)
qed

lemma eog_regression_Inl:
  assumes "valid_raw raw1" "valid_raw raw2"
    and "gauss_jordan 2 2 (gram (data raw1)) (cross (data raw1)) = Inl e"
  shows "eog_regression raw1 raw2 = Inl e"
proof -
  from assms(1,2) have v: "nrows (data raw1) = 25" "nrows (data raw2) = 25"
    by (simp_all add: valid_raw_def)
  show ?thesis
    unfolding eog_regression_unfold[OF v] assms(3) by simp
qed

lemma regression_succeeds:
  assumes "valid_raw raw1" "valid_raw raw2" "det2 (gram (data raw1)) \<noteq> 0"
  shows "\<exists>r x. eog_regression raw1 raw2 = Inr r \<and> is_result raw2 x r \<and>
           solves 2 (gram (data raw1)) (cross (data raw1)) x"
proof -
  from gauss_jordan_2_ok[OF assms(3), of "cross (data raw1)"] obtain x
    where x: "gauss_jordan 2 2 (gram (data raw1)) (cross (data raw1)) = Inr x"
      and s: "solves 2 (gram (data raw1)) (cross (data raw1)) x" by blast
  from eog_regression_Inr[OF assms(1,2) x] s show ?thesis by blast
qed

lemma regression_returned:
  assumes "valid_raw raw1" "valid_raw raw2" "eog_regression raw1 raw2 = Inr r"
  shows "\<exists>x. is_result raw2 x r \<and> det2 (gram (data raw1)) \<noteq> 0 \<and>
           solves 2 (gram (data raw1)) (cross (data raw1)) x"
proof (cases "det2 (gram (data raw1)) = 0")
  case True
  from eog_regression_Inl[OF assms(1,2) gauss_jordan_2_singular[OF True]] assms(3)
  show ?thesis by simp
next
  case False
  from regression_succeeds[OF assms(1,2) False] assms(3) False show ?thesis by auto
qed






subsection \<open>EOG channels: all zero, shifted by an offset, shared by two recordings\<close>













subsection \<open>Correcting a recording with its own coefficients\<close>

text \<open>
  The corrected EEG of a recording that was its own calibration run has cross-covariance
  zero with the bipolar EOG (the normal equations), and a recording with cross-covariance
  zero is left as it is: the second such correction changes nothing.
\<close>

lemma result_bipolar:
  assumes "is_result s x r"
  shows "bipolar (data (raw3 r)) = bipolar (data s)"
  using assms by (intro ext) (simp add: bipolar_def is_result_def)

lemma result_valid:
  assumes "valid_raw s" "is_result s x r"
  shows "valid_raw (raw3 r)"
  using assms by (simp add: valid_raw_def is_result_def)

lemma result_gram:
  assumes "is_result s x r"
  shows "gram (data (raw3 r)) = gram (data s)"
  using assms result_bipolar[OF assms] by (simp add: gram_def is_result_def)

lemma self_corrected_uncorrelated:
  assumes "valid_raw s" "eog_regression s s = Inr r" "k < 2" "i < 22"
  shows "cross (data (raw3 r)) k i = 0"
proof -
  from regression_returned[OF assms(1,1,2)] obtain x
    where res: "is_result s x r" and sol: "solves 2 (gram (data s)) (cross (data s)) x" by blast
  let ?E = "bipolar (data s)" and ?n = "ncols (data s)"
  have "cross (data (raw3 r)) k i = (\<Sum>j<?n. ?E k j * corrected (data s) x i j)"
    using res assms(4) by (simp add: cross_def result_bipolar[OF res] is_result_def)
  also have "\<dots> = (\<Sum>j<?n. ?E k j * cell (data s) i j
                        - (?E k j * ?E 0 j * x 0 i + ?E k j * ?E 1 j * x 1 i))"
    by (simp add: corrected_def sum_lessThan_2 algebra_simps)
  also have "\<dots> = cross (data s) k i
                  - (gram (data s) k 0 * x 0 i + gram (data s) k 1 * x 1 i)"
    by (simp add: cross_def gram_def sum_subtractf sum.distrib sum_distrib_right)
  also have "\<dots> = 0"
    using sol assms(3) by (simp add: solves_def sum_lessThan_2)
  finally show ?thesis .
qed

lemma zero_cross_zero_coefficients:
  assumes "valid_raw s" "eog_regression s s = Inr r"
    and "\<forall>k<2. \<forall>i<22. cross (data s) k i = 0"
  shows "(\<forall>k<2. \<forall>i<22. cell (b r) k i = 0) \<and>
         (\<forall>i<25. \<forall>j<ncols (data s). cell (data (raw3 r)) i j = cell (data s) i j)"
proof -
  from regression_returned[OF assms(1,1,2)] obtain x
    where res: "is_result s x r" and det: "det2 (gram (data s)) \<noteq> 0"
      and sol: "solves 2 (gram (data s)) (cross (data s)) x" by blast
  from det have ns: "nonsingular 2 (gram (data s))" by (simp add: nonsingular_2_det)
  have zero: "solves 2 (gram (data s)) (\<lambda>k i. 0) (\<lambda>k i. 0)"
    by (simp add: solves_def)
  have x0: "x k i = 0" if "k < 2" "i < 22" for k i
    using solution_column_unique[OF ns sol zero _ that(1), of i] assms(3) that(2) by simp
  have c: "corrected (data s) x i j = cell (data s) i j" if "i < 22" for i j
    using that by (simp add: corrected_def x0)
  have "cell (data (raw3 r)) i j = cell (data s) i j" if "j < ncols (data s)" for i j
    using res that c[of i j] by (cases "i < 22") (simp_all add: is_result_def)
  with res x0 show ?thesis by (simp add: is_result_def)
qed

lemma recorrection_of_self_corrected_is_identity:
  assumes "valid_raw s" "eog_regression s s = Inr r"
  shows "\<exists>r2. eog_regression (raw3 r) (raw3 r) = Inr r2 \<and>
           (\<forall>k<2. \<forall>i<22. cell (b r2) k i = 0) \<and>
           (\<forall>i<25. \<forall>j<ncols (data s). cell (data (raw3 r2)) i j = cell (data (raw3 r)) i j)"
proof -
  from regression_returned[OF assms(1,1,2)] obtain x
    where res: "is_result s x r" and det: "det2 (gram (data s)) \<noteq> 0" by blast
  have v: "valid_raw (raw3 r)" by (rule result_valid[OF assms(1) res])
  have "det2 (gram (data (raw3 r))) \<noteq> 0" using det by (simp add: result_gram[OF res])
  from regression_succeeds[OF v v this] obtain r2
    where r2: "eog_regression (raw3 r) (raw3 r) = Inr r2" by blast
  have "\<forall>k<2. \<forall>i<22. cross (data (raw3 r)) k i = 0"
    using self_corrected_uncorrelated[OF assms] by simp
  from zero_cross_zero_coefficients[OF v r2 this] r2 res show ?thesis
    by (simp add: is_result_def)
qed

subsection \<open>The example recordings\<close>


lemma valid_ex: "valid_raw cal_ex" "valid_raw tgt_ex"
  by (simp_all add: valid_raw_def cal_ex_def tgt_ex_def script_info_def)

lemma gram_cal_ex: "gram (data cal_ex) 0 0 = 1" "gram (data cal_ex) 0 (Suc 0) = 0"
   "gram (data cal_ex) (Suc 0) 0 = 0" "gram (data cal_ex) (Suc 0) (Suc 0) = 1"
  by (simp_all add: gram_def bipolar_rows cal_ex_def cal_cells_def sum_lessThan_2)

lemma det_cal_ex: "det2 (gram (data cal_ex)) = 1"
  by (simp add: det2_def gram_cal_ex)

lemma cross_cal_ex: "cross (data cal_ex) 0 0 = 3" "cross (data cal_ex) (Suc 0) 0 = 3"
  by (simp_all add: cross_def bipolar_rows cal_ex_def cal_cells_def sum_lessThan_2)

lemma bipolar_tgt_ex: "bipolar (data tgt_ex) 0 0 = 1" "bipolar (data tgt_ex) (Suc 0) 0 = 2"
  by (simp_all add: bipolar_rows tgt_ex_def)

lemma tgt_ex_facts:
  "nrows (data tgt_ex) = 25" "ncols (data tgt_ex) = 1" "info tgt_ex = script_info"
  "cell (data tgt_ex) 22 0 = 2" "cell (data tgt_ex) 23 0 = 1" "cell (data tgt_ex) 24 0 = 3"
  by (simp_all add: tgt_ex_def)

lemma regression_ex_returns: "\<exists>r. eog_regression cal_ex tgt_ex = Inr r"
  using regression_succeeds[of cal_ex tgt_ex] by (auto simp: valid_ex det_cal_ex)

lemma gauss_jordan_cal_ex:
  "\<exists>x. gauss_jordan 2 2 (gram (data cal_ex)) (cross (data cal_ex)) = Inr x \<and>
       x 0 0 = 3 \<and> x (Suc 0) 0 = 3"
  by (simp add: numeral_2_eq_2 Let_def gram_cal_ex cross_cal_ex eliminate_def sub_rows_def
      scale_row_def swap_rows_def)

lemma regression_example:
  "case eog_regression cal_ex tgt_ex of
     Inl e \<Rightarrow> False
   | Inr r \<Rightarrow> cell (b r) 0 0 = 3 \<and> cell (b r) 1 0 = 3 \<and>
             cell (eeg_corrected r) 0 0 = - 4 \<and>
             cell (data (raw3 r)) 0 0 = - 4 \<and> cell (data (raw3 r)) 22 0 = 2"
proof -
  from gauss_jordan_cal_ex obtain x
    where x: "gauss_jordan 2 2 (gram (data cal_ex)) (cross (data cal_ex)) = Inr x"
      and x0: "x 0 0 = 3" "x (Suc 0) 0 = 3" by blast
  from eog_regression_Inr[OF valid_ex x] obtain r
    where r: "eog_regression cal_ex tgt_ex = Inr r" and res: "is_result tgt_ex x r" by blast
  have t: "cell (data tgt_ex) 0 0 = 5" by (simp add: tgt_ex_def)
  have "corrected (data tgt_ex) x 0 0 = - 4"
    by (simp add: corrected_def sum_lessThan_2 bipolar_tgt_ex x0 t)
  with res r x0 show ?thesis
    by (simp add: is_result_def tgt_ex_facts)
qed


















subsection \<open>Properties\<close>





text \<open>
  C3. The \<open>Raw\<close> object the script returns has the shape and the channel description of the
  target, and its EOG rows 22, 23, 24 hold the target's values; only cells of EEG rows can
  differ.
\<close>

theorem output_keeps_shape_layout_and_eog:
  assumes "valid_raw raw1" "valid_raw raw2" "eog_regression raw1 raw2 = Inr r"
  shows "nrows (data (raw3 r)) = nrows (data raw2) \<and> ncols (data (raw3 r)) = ncols (data raw2) \<and>
         info (raw3 r) = info raw2 \<and>
         (\<forall>i j. 22 \<le> i \<and> i < 25 \<and> j < ncols (data raw2)
             \<longrightarrow> cell (data (raw3 r)) i j = cell (data raw2) i j)"
proof -
  from regression_returned[OF assms] obtain x where "is_result raw2 x r" by blast
  then show ?thesis by (simp add: is_result_def)
qed

theorem output_keeps_shape_layout_and_eog_witness:
  "\<exists>r. valid_raw cal_ex \<and> valid_raw tgt_ex \<and> eog_regression cal_ex tgt_ex = Inr r \<and>
     nrows (data (raw3 r)) = 25 \<and> ncols (data (raw3 r)) = 1 \<and>
     info (raw3 r) = script_info \<and>
     cell (data (raw3 r)) 22 0 = 2 \<and> cell (data (raw3 r)) 23 0 = 1 \<and> cell (data (raw3 r)) 24 0 = 3"
proof -
  from regression_ex_returns obtain r where r: "eog_regression cal_ex tgt_ex = Inr r" ..
  from output_keeps_shape_layout_and_eog[OF valid_ex r] r show ?thesis
    by (intro exI[of _ r]) (simp add: valid_ex tgt_ex_facts)
qed















end
